theory Spec2Isabelle
  imports Complex_Main "HOL-Library.Sublist"
begin

section \<open>Strings of the program\<close>

text \<open>
  A JavaScript string is a sequence of UTF-16 code units. The model uses \<open>string\<close>;
  a \<open>char\<close> stands for a code unit below 256 (the Latin-1 range), which covers every
  command name, marker and message of the repository.
\<close>

definition lower_char :: "char \<Rightarrow> char" where
  "lower_char c =
     (let n = (of_char c :: nat)
      in if (65 \<le> n \<and> n \<le> 90) \<or> (192 \<le> n \<and> n \<le> 222 \<and> n \<noteq> 215)
         then char_of (n + 32) else c)"

definition toLowerCase :: "string \<Rightarrow> string" where
  "toLowerCase s = map lower_char s"

text \<open>The white space of \<open>String.prototype.trim\<close> and of the pattern \<open>\s\<close>, below 256.\<close>

definition isWhitespace :: "char \<Rightarrow> bool" where
  "isWhitespace c = ((of_char c :: nat) \<in> {9, 10, 11, 12, 13, 32, 160})"

definition trim :: "string \<Rightarrow> string" where
  "trim s = rev (dropWhile isWhitespace (rev (dropWhile isWhitespace s)))"

text \<open>
  \<open>s.split(/\s+/)\<close>: the pieces of \<open>s\<close> between maximal runs of white space. A run at
  the start or the end leaves an empty piece there, and the empty string gives one
  empty piece. The flag says that the scan is inside a run.
\<close>

fun split_ws_from :: "string \<Rightarrow> bool \<Rightarrow> string \<Rightarrow> string list" where
  "split_ws_from cur inrun [] = [cur]"
| "split_ws_from cur inrun (c # cs) =
     (if isWhitespace c
      then (if inrun then split_ws_from [] True cs else cur # split_ws_from [] True cs)
      else split_ws_from (cur @ [c]) False cs)"

definition split_ws :: "string \<Rightarrow> string list" where
  "split_ws s = split_ws_from [] False s"

definition startsWith :: "string \<Rightarrow> string \<Rightarrow> bool" where
  "startsWith s p = (take (length p) s = p)"

text \<open>\<open>s.includes(p)\<close>: \<open>p\<close> occurs in \<open>s\<close> at some position.\<close>

fun includes_str :: "string \<Rightarrow> string \<Rightarrow> bool" where
  "includes_str [] p = (p = [])"
| "includes_str (c # cs) p = (startsWith (c # cs) p \<or> includes_str cs p)"

section \<open>Command registry (CommandRegistry)\<close>

text \<open>A thrown \<open>Error\<close> object, with its message.\<close>

datatype error = Error string

text \<open>
  What a descriptor's \<open>validate\<close> returns: \<open>true\<close>, \<open>false\<close>, a string, or nothing
  (\<open>undefined\<close>). The validators of the repository return \<open>true\<close> or a usage string.
\<close>

datatype validation = VBool bool | VString string | VUndefined

fun truthy :: "validation \<Rightarrow> bool" where
  "truthy (VBool b) = b"
| "truthy (VString s) = (s \<noteq> [])"
| "truthy VUndefined = False"

text \<open>The message of \<open>new Error(v)\<close> for a truthy \<open>v\<close>: \<open>ToString(v)\<close>.\<close>

fun message_of :: "validation \<Rightarrow> string" where
  "message_of (VBool b) = (if b then ''true'' else ''false'')"
| "message_of (VString s) = s"
| "message_of VUndefined = ''''"

text \<open>
  A command definition object. A property that is absent is \<open>None\<close>. The execution
  context handed to \<open>execute\<close> (ui, api, context) is the world \<open>'w\<close> that the command
  may change; an \<open>execute\<close> that rejects returns its error.
\<close>

record 'w command =
  cmd_name :: "string option"
  cmd_aliases :: "string list option"
  cmd_validate :: "(string list \<Rightarrow> validation) option"
  cmd_execute :: "(string list \<Rightarrow> 'w \<Rightarrow> (error + unit) \<times> 'w) option"

record 'w registry =
  commands :: "string \<rightharpoonup> 'w command"
  aliases :: "string \<rightharpoonup> string"

definition new_registry :: "'w registry" where
  "new_registry = \<lparr>commands = Map.empty, aliases = Map.empty\<rparr>"

definition set_alias :: "string \<Rightarrow> string \<Rightarrow> 'w registry \<Rightarrow> 'w registry" where
  "set_alias key alias r = r\<lparr>aliases := (aliases r)(toLowerCase alias \<mapsto> key)\<rparr>"

text \<open>
  \<open>register(command)\<close>: the error thrown, if any, and the registry afterwards.
  \<open>!command.name\<close> holds for an absent name and for the empty string.
\<close>

definition register :: "'w command \<Rightarrow> 'w registry \<Rightarrow> (error + unit) \<times> 'w registry" where
  "register command r =
     (case cmd_name command of
        None \<Rightarrow> (Inl (Error ''Command must have a name and execute function''), r)
      | Some n \<Rightarrow>
          if n = [] \<or> cmd_execute command = None
          then (Inl (Error ''Command must have a name and execute function''), r)
          else
            let key = toLowerCase n;
                r1 = r\<lparr>commands := (commands r)(key \<mapsto> command)\<rparr>
            in (Inr (),
                case cmd_aliases command of
                  None \<Rightarrow> r1
                | Some as \<Rightarrow> fold (set_alias key) as r1))"

text \<open>\<open>get(name)\<close>: the name map first, then the alias map; \<open>None\<close> is \<open>null\<close>/\<open>undefined\<close>.\<close>

definition get :: "string \<Rightarrow> 'w registry \<Rightarrow> 'w command option" where
  "get name r =
     (let normalizedName = toLowerCase name
      in case commands r normalizedName of
           Some c \<Rightarrow> Some c
         | None \<Rightarrow>
             (case aliases r normalizedName of
                Some realName \<Rightarrow> commands r realName
              | None \<Rightarrow> None))"

text \<open>The calls that \<open>execute(commandLine, context)\<close> makes into a descriptor, in order.\<close>

datatype call = ValidateCall "string option" "string list" | ExecuteCall "string option" "string list"

definition name_text :: "string option \<Rightarrow> string" where
  "name_text n = (case n of Some s \<Rightarrow> s | None \<Rightarrow> ''undefined'')"

definition run_command :: "'w command \<Rightarrow> string list \<Rightarrow> 'w \<Rightarrow> call list \<Rightarrow> (error + unit) \<times> 'w \<times> call list" where
  "run_command command args w calls =
     (case cmd_execute command of
        None \<Rightarrow> (Inl (Error ''command.execute is not a function''), w, calls)
      | Some f \<Rightarrow>
          (case f args w of (res, w') \<Rightarrow> (res, w', calls @ [ExecuteCall (cmd_name command) args])))"

text \<open>
  \<open>execute(commandLine, context)\<close>: the error thrown or the normal completion, the world
  afterwards, and the calls made.
\<close>

definition execute :: "string \<Rightarrow> 'w \<Rightarrow> 'w registry \<Rightarrow> (error + unit) \<times> 'w \<times> call list" where
  "execute commandLine w r =
     (case split_ws (trim commandLine) of
        [] \<Rightarrow> (Inl (Error ''Cannot read properties of undefined (reading 'toLowerCase')''), w, [])
      | commandName # args \<Rightarrow>
          (case get commandName r of
             None \<Rightarrow>
               (Inl (Error (''Unknown command: '' @ commandName
                            @ ''. Type 'help' for available commands.'')), w, [])
           | Some command \<Rightarrow>
               (case cmd_validate command of
                  None \<Rightarrow> run_command command args w []
                | Some v \<Rightarrow>
                    let validationResult = v args;
                        calls = [ValidateCall (cmd_name command) args]
                    in if validationResult \<noteq> VBool True
                       then (Inl (Error (if truthy validationResult
                                         then message_of validationResult
                                         else ''Invalid arguments for '' @ name_text (cmd_name command))),
                             w, calls)
                       else run_command command args w calls)))"

text \<open>
  \<open>executeCommand(commandLine)\<close> of main.js: runs the registry's \<open>execute\<close> and shows the
  message of a caught error with \<open>ui.showError\<close>. The first component is the message
  shown, if any.
\<close>

definition executeCommand :: "string \<Rightarrow> 'w \<Rightarrow> 'w registry \<Rightarrow> string option \<times> 'w \<times> call list" where
  "executeCommand commandLine w r =
     (case execute commandLine w r of
        (Inl (Error msg), w', calls) \<Rightarrow> (Some msg, w', calls)
      | (Inr u, w', calls) \<Rightarrow> (None, w', calls))"

text \<open>The registry after the command modules have called \<open>register\<close> one after the other.\<close>

definition register_all :: "'w command list \<Rightarrow> 'w registry \<Rightarrow> 'w registry" where
  "register_all cs r = fold (\<lambda>c r. snd (register c r)) cs r"

text \<open>A descriptor that \<open>register\<close> accepts: a non-empty name and an \<open>execute\<close>.\<close>

definition valid_command :: "'w command \<Rightarrow> bool" where
  "valid_command c =
     (case cmd_name c of None \<Rightarrow> False | Some n \<Rightarrow> n \<noteq> [] \<and> cmd_execute c \<noteq> None)"

text \<open>The keys under which \<open>register\<close> files a descriptor: its name and its aliases, lower-cased.\<close>

definition name_key :: "'w command \<Rightarrow> string" where
  "name_key c = toLowerCase (case cmd_name c of Some n \<Rightarrow> n | None \<Rightarrow> [])"

definition alias_keys :: "'w command \<Rightarrow> string list" where
  "alias_keys c = map toLowerCase (case cmd_aliases c of Some as \<Rightarrow> as | None \<Rightarrow> [])"

definition command_keys :: "'w command \<Rightarrow> string list" where
  "command_keys c = name_key c # alias_keys c"

text \<open>No key of one descriptor of the list is a key of another one.\<close>

fun no_collisions :: "'w command list \<Rightarrow> bool" where
  "no_collisions [] = True"
| "no_collisions (c # cs) =
     ((\<forall>d \<in> set cs. set (command_keys c) \<inter> set (command_keys d) = {}) \<and> no_collisions cs)"

subsection \<open>Descriptors used as examples\<close>

definition noop_execute :: "string list \<Rightarrow> unit \<Rightarrow> (error + unit) \<times> unit" where
  "noop_execute args w = (Inr (), w)"

text \<open>The validators of list.js and impersonate.js.\<close>

definition list_validate :: "string list \<Rightarrow> validation" where
  "list_validate args = (if length args = 0 then VString ''Usage: list <table_name>'' else VBool True)"

definition impersonate_validate :: "string list \<Rightarrow> validation" where
  "impersonate_validate args =
     (if length args = 0 then VString ''Usage: impersonate <username|end>'' else VBool True)"

definition cmd_list :: "unit command" where
  "cmd_list = \<lparr>cmd_name = Some ''list'', cmd_aliases = Some [''ls'', ''l''],
                cmd_validate = Some list_validate, cmd_execute = Some noop_execute\<rparr>"

definition cmd_impersonate :: "unit command" where
  "cmd_impersonate = \<lparr>cmd_name = Some ''impersonate'', cmd_aliases = Some [''imp'', ''su''],
                       cmd_validate = Some impersonate_validate, cmd_execute = Some noop_execute\<rparr>"

text \<open>A descriptor without \<open>execute\<close>.\<close>

definition cmd_no_execute :: "unit command" where
  "cmd_no_execute = \<lparr>cmd_name = Some ''broken'', cmd_aliases = Some [''br''],
                      cmd_validate = None, cmd_execute = None\<rparr>"

text \<open>A descriptor whose validator answers with the empty string.\<close>

definition blank_validate :: "string list \<Rightarrow> validation" where
  "blank_validate args = VString []"

definition cmd_blank :: "unit command" where
  "cmd_blank = \<lparr>cmd_name = Some ''blank'', cmd_aliases = None,
                 cmd_validate = Some blank_validate, cmd_execute = Some noop_execute\<rparr>"

text \<open>A descriptor \<open>ls\<close>, whose name is an alias of \<open>list\<close>.\<close>

definition cmd_ls :: "unit command" where
  "cmd_ls = \<lparr>cmd_name = Some ''ls'', cmd_aliases = None,
              cmd_validate = None, cmd_execute = Some noop_execute\<rparr>"

text \<open>A descriptor that lists the empty string among its aliases.\<close>

definition cmd_empty_alias :: "unit command" where
  "cmd_empty_alias = \<lparr>cmd_name = Some ''home'', cmd_aliases = Some [[]],
                       cmd_validate = None, cmd_execute = Some noop_execute\<rparr>"

section \<open>Table name resolution (list.js)\<close>

text \<open>
  An entry of the table cache: \<open>name\<close> is the display name (the label), \<open>table\<close> the
  technical name. \<open>findMatchingTables\<close> and \<open>resolveTableName\<close> read the cache through
  \<open>getTableDefinitions()\<close>, whose result is the parameter \<open>tables\<close> here.
\<close>

record tableDef =
  name :: string
  table :: string





definition resolveTableName :: "tableDef list \<Rightarrow> string \<Rightarrow> string" where
  "resolveTableName tables input =
     (let lowerInput = toLowerCase input
      in case find (\<lambda>def. toLowerCase (table def) = lowerInput) tables of
           Some exactTable \<Rightarrow> table exactTable
         | None \<Rightarrow>
             (case find (\<lambda>def. toLowerCase (name def) = lowerInput) tables of
                Some exactName \<Rightarrow> table exactName
              | None \<Rightarrow> toLowerCase input))"

text \<open>The two entries of the spec's example.\<close>

definition incident_def :: tableDef where
  "incident_def = \<lparr>name = ''Incident'', table = ''incident''\<rparr>"

definition incident_task_def :: tableDef where
  "incident_task_def = \<lparr>name = ''Incident Task'', table = ''incident_task''\<rparr>"



section \<open>Bridge client (ServiceNowAPI in api.js)\<close>

text \<open>Decimal digits of a number, as a template literal prints it.\<close>

definition digit_char :: "nat \<Rightarrow> char" where
  "digit_char d = ''0123456789'' ! d"

function decimal :: "nat \<Rightarrow> string" where
  "decimal n = (if n < 10 then [digit_char n] else decimal (n div 10) @ [digit_char (n mod 10)])"
  by pat_completeness auto
termination
  by (relation "measure id") auto

declare decimal.simps [simp del]

text \<open>
  A message on the window: the data of a \<open>MessageEvent\<close>. \<open>type\<close> and \<open>messageId\<close> may
  be absent; the other properties are the payload \<open>'p\<close>.
\<close>

record 'p message =
  msg_type :: "string option"
  msg_messageId :: "string option"
  msg_data :: 'p

text \<open>
  An entry of \<open>messageHandlers\<close>: \<open>resolve\<close> and \<open>reject\<close> settle one promise, named here
  by its number, and \<open>timeout\<close> is the timer id that \<open>setTimeout\<close> returned (never 0).
\<close>

record handler =
  h_promise :: nat
  h_timeout :: nat

datatype 'p settlement = Pending | Resolved "'p message" | Rejected error

text \<open>What a pending timer does when it fires: the two callbacks of \<open>_sendMessage\<close>.\<close>

datatype 'p timer = RequestTimeout string string nat | PostRequest "'p message"

text \<open>The primitive steps on the table and on promises, in the order they are made.\<close>

datatype action =
    HandlerSet string
  | HandlerDelete string
  | ClearTimeout nat
  | Resolve nat
  | Reject nat

text \<open>
  The client and the part of the browser it acts on: the pending request table
  \<open>messageHandlers\<close>, the counter, the promises created so far, the timers that are set,
  the next free promise or timer number, the messages posted and the steps made.
\<close>

record 'p api =
  messageHandlers :: "string \<rightharpoonup> handler"
  messageIdCounter :: nat
  promises :: "nat \<rightharpoonup> 'p settlement"
  timers :: "nat \<rightharpoonup> 'p timer"
  next_id :: nat
  posted :: "'p message list"
  steps :: "action list"

definition new_api :: "'p api" where
  "new_api = \<lparr>messageHandlers = Map.empty, messageIdCounter = 0, promises = Map.empty,
              timers = Map.empty, next_id = 1, posted = [], steps = []\<rparr>"

text \<open>
  \<open>++this.messageIdCounter\<close>: the counter is a double. It starts at 0 and only \<open>++\<close>
  changes it, so it holds whole numbers up to \<open>2^53\<close>. Below \<open>2^53\<close> the sum is exact;
  at \<open>2^53\<close> the sum \<open>2^53 + 1\<close> is not a double and rounds back to \<open>2^53\<close>, so the
  counter stays there.
\<close>

definition increment :: "nat \<Rightarrow> nat" where
  "increment c = (if c < 2 ^ 53 then c + 1 else c)"

text \<open>
  \<open>_generateMessageId()\<close>: the template \<open>glass_${Date.now()}_${++this.messageIdCounter}\<close>;
  \<open>now\<close> is what \<open>Date.now()\<close> returns.
\<close>

definition messageId_of :: "nat \<Rightarrow> nat \<Rightarrow> string" where
  "messageId_of now counter = ''glass_'' @ decimal now @ ''_'' @ decimal counter"

definition generateMessageId :: "nat \<Rightarrow> 'p api \<Rightarrow> string \<times> 'p api" where
  "generateMessageId now s =
     (let counter = increment (messageIdCounter s)
      in (messageId_of now counter, s\<lparr>messageIdCounter := counter\<rparr>))"

text \<open>Settling a promise: only a pending promise changes.\<close>

definition settle :: "nat \<Rightarrow> 'p settlement \<Rightarrow> 'p api \<Rightarrow> 'p api" where
  "settle p v s =
     (case promises s p of
        Some Pending \<Rightarrow> s\<lparr>promises := (promises s)(p \<mapsto> v)\<rparr>
      | _ \<Rightarrow> s)"

definition resolve :: "nat \<Rightarrow> 'p message \<Rightarrow> 'p api \<Rightarrow> 'p api" where
  "resolve p m s = (settle p (Resolved m) s)\<lparr>steps := steps s @ [Resolve p]\<rparr>"

definition reject :: "nat \<Rightarrow> error \<Rightarrow> 'p api \<Rightarrow> 'p api" where
  "reject p e s = (settle p (Rejected e) s)\<lparr>steps := steps s @ [Reject p]\<rparr>"

definition handlers_set :: "string \<Rightarrow> handler \<Rightarrow> 'p api \<Rightarrow> 'p api" where
  "handlers_set k h s =
     s\<lparr>messageHandlers := (messageHandlers s)(k \<mapsto> h), steps := steps s @ [HandlerSet k]\<rparr>"

definition handlers_delete :: "string \<Rightarrow> 'p api \<Rightarrow> 'p api" where
  "handlers_delete k s =
     s\<lparr>messageHandlers := (messageHandlers s)(k := None), steps := steps s @ [HandlerDelete k]\<rparr>"

definition clearTimeout :: "nat \<Rightarrow> 'p api \<Rightarrow> 'p api" where
  "clearTimeout t s = s\<lparr>timers := (timers s)(t := None), steps := steps s @ [ClearTimeout t]\<rparr>"

text \<open>
  \<open>_sendMessage(type, data, timeout)\<close>, with the bridge ready. It creates the promise,
  sets the timeout timer, files the handler and sets the timer that posts the request
  50 ms later. The result is the promise; the delays are not modelled, a timer that is
  set may fire at any later step.
\<close>

definition sendMessage :: "string \<Rightarrow> 'p \<Rightarrow> nat \<Rightarrow> 'p api \<Rightarrow> nat \<times> 'p api" where
  "sendMessage type data now s =
     (case generateMessageId now s of
        (messageId, s1) \<Rightarrow>
          let p = next_id s1;
              timeoutId = next_id s1 + 1;
              postId = next_id s1 + 2;
              s2 = s1\<lparr>promises := (promises s1)(p \<mapsto> Pending),
                      timers := (timers s1)(timeoutId \<mapsto> RequestTimeout messageId type p),
                      next_id := next_id s1 + 3\<rparr>;
              s3 = handlers_set messageId \<lparr>h_promise = p, h_timeout = timeoutId\<rparr> s2;
              s4 = s3\<lparr>timers := (timers s3)(postId \<mapsto>
                        PostRequest \<lparr>msg_type = Some type, msg_messageId = Some messageId,
                                     msg_data = data\<rparr>)\<rparr>
          in (p, s4))"

text \<open>
  \<open>_handleMessage(event)\<close>, the listener for every message on the window.
  \<open>type.includes('Response')\<close> decides what counts as a response.
\<close>

definition handleMessage :: "'p message \<Rightarrow> 'p api \<Rightarrow> 'p api" where
  "handleMessage m s =
     (case msg_messageId m of
        None \<Rightarrow> s
      | Some messageId \<Rightarrow>
          if messageId = [] \<or> messageHandlers s messageId = None then s
          else
            (case msg_type m of
               None \<Rightarrow> s
             | Some type \<Rightarrow>
                 if type = [] \<or> \<not> includes_str type ''Response'' then s
                 else
                   (case messageHandlers s messageId of
                      None \<Rightarrow> s
                    | Some handler \<Rightarrow>
                        let s1 = handlers_delete messageId s;
                            s2 = (if h_timeout handler \<noteq> 0
                                  then clearTimeout (h_timeout handler) s1 else s1)
                        in resolve (h_promise handler) m s2)))"

text \<open>
  A timer fires: it is no longer set, and its callback runs. The timeout callback deletes
  the table entry and rejects; the other callback posts the request. A timer that is
  not set (cleared, or fired before) does nothing.
\<close>

definition fire :: "nat \<Rightarrow> 'p api \<Rightarrow> 'p api" where
  "fire t s =
     (case timers s t of
        None \<Rightarrow> s
      | Some (RequestTimeout messageId type p) \<Rightarrow>
          reject p (Error (''Request timed out: '' @ type))
            (handlers_delete messageId (s\<lparr>timers := (timers s)(t := None)\<rparr>))
      | Some (PostRequest m) \<Rightarrow>
          s\<lparr>timers := (timers s)(t := None), posted := posted s @ [m]\<rparr>)"





subsection \<open>Runs of the client\<close>

text \<open>
  What happens to the client, one event after the other: a request is sent, a message
  arrives on the window, a timer fires.
\<close>

datatype 'p event = Send string 'p nat | Deliver "'p message" | Fire nat

definition step :: "'p event \<Rightarrow> 'p api \<Rightarrow> 'p api" where
  "step e s =
     (case e of
        Send type data now \<Rightarrow> snd (sendMessage type data now s)
      | Deliver m \<Rightarrow> handleMessage m s
      | Fire t \<Rightarrow> fire t s)"

definition run :: "'p event list \<Rightarrow> 'p api \<Rightarrow> 'p api" where
  "run es s = fold step es s"

text \<open>
  What every run keeps true: the table holds the ids filed and not deleted; no id is
  filed or deleted twice; a filed id carries a counter value already used; a deleted id
  was filed; a timeout timer that is set belongs to the entry of its id; and no entry
  has the timer id 0.
\<close>

definition table_invariant :: "'p api \<Rightarrow> bool" where
  "table_invariant s =
     ((\<forall>k. messageHandlers s k \<noteq> None \<longleftrightarrow>
            HandlerSet k \<in> set (steps s) \<and> HandlerDelete k \<notin> set (steps s))
    \<and> (\<forall>k. count_list (steps s) (HandlerSet k) \<le> 1 \<and> count_list (steps s) (HandlerDelete k) \<le> 1)
    \<and> (\<forall>k. HandlerSet k \<in> set (steps s) \<longrightarrow>
            (\<exists>now c. k = messageId_of now c \<and> c \<le> messageIdCounter s))
    \<and> (\<forall>k. HandlerDelete k \<in> set (steps s) \<longrightarrow> HandlerSet k \<in> set (steps s))
    \<and> (\<forall>t k ty p. timers s t = Some (RequestTimeout k ty p) \<longrightarrow>
            (\<exists>h. messageHandlers s k = Some h \<and> h_timeout h = t))
    \<and> (\<forall>k h. messageHandlers s k = Some h \<longrightarrow> h_timeout h \<noteq> 0))"

section \<open>Bridge: session token and script execution (api-bridge.js)\<close>

text \<open>
  What the bridge reads from the page: \<open>window.g_ck\<close> (absent is \<open>None\<close>), the text of
  each script element, \<open>document.cookie\<close> and \<open>window.location.origin\<close>.
\<close>

record page =
  window_g_ck :: "string option"
  scripts :: "string list"
  cookie :: string
  origin :: string

text \<open>A value that may be \<open>undefined\<close> or \<open>null\<close> is truthy when it is a non-empty string.\<close>

definition truthy_str :: "string option \<Rightarrow> bool" where
  "truthy_str v = (case v of None \<Rightarrow> False | Some s \<Rightarrow> s \<noteq> [])"

text \<open>\<open>a || b\<close> on such values, and the text of a value where a string is expected.\<close>

definition js_or :: "string option \<Rightarrow> string option \<Rightarrow> string option" where
  "js_or a b = (if truthy_str a then a else b)"

definition text_of :: "string option \<Rightarrow> string" where
  "text_of v = (case v of Some s \<Rightarrow> s | None \<Rightarrow> ''undefined'')"

definition isQuote :: "char \<Rightarrow> bool" where
  "isQuote c = (c = CHR 0x27 \<or> c = CHR 0x22)"

text \<open>
  The pattern \<open>/g_ck\s*=\s*['"]([^'"]+)['"]/\<close> tried at the start of a string: the
  captured group if it matches there. Each greedy part is followed by a character it
  cannot match itself, so there is nothing to backtrack.
\<close>

definition match_g_ck_here :: "string \<Rightarrow> string option" where
  "match_g_ck_here s =
     (if startsWith s ''g_ck'' then
        (case dropWhile isWhitespace (drop 4 s) of
           [] \<Rightarrow> None
         | c # r1 \<Rightarrow>
             if c = CHR ''='' then
               (case dropWhile isWhitespace r1 of
                  [] \<Rightarrow> None
                | q # r2 \<Rightarrow>
                    if isQuote q then
                      (let tok = takeWhile (\<lambda>c. \<not> isQuote c) r2;
                           r3 = dropWhile (\<lambda>c. \<not> isQuote c) r2
                       in if tok \<noteq> [] \<and> r3 \<noteq> [] then Some tok else None)
                    else None)
             else None)
      else None)"

text \<open>\<open>content.match(...)\<close>: the leftmost position at which the pattern matches.\<close>

fun match_g_ck :: "string \<Rightarrow> string option" where
  "match_g_ck [] = None"
| "match_g_ck (c # cs) =
     (case match_g_ck_here (c # cs) of Some tok \<Rightarrow> Some tok | None \<Rightarrow> match_g_ck cs)"

text \<open>The loop over the script elements: the first script with a match decides.\<close>

fun scan_scripts :: "string list \<Rightarrow> string option" where
  "scan_scripts [] = None"
| "scan_scripts (content # rest) =
     (case match_g_ck content of Some tok \<Rightarrow> Some tok | None \<Rightarrow> scan_scripts rest)"

text \<open>\<open>s.split(c)\<close> for a one-character separator; the empty string gives one empty piece.\<close>

fun split_on :: "char \<Rightarrow> string \<Rightarrow> string list" where
  "split_on sep [] = [[]]"
| "split_on sep (c # cs) =
     (if c = sep then [] # split_on sep cs
      else (case split_on sep cs of
              [] \<Rightarrow> [[c]]
            | p # ps \<Rightarrow> (c # p) # ps))"

text \<open>
  The loop over the cookies: the first cookie named \<open>glide_user_session\<close> or
  \<open>JSESSIONID\<close> decides, and \<open>cookie[1]\<close> is \<open>undefined\<close> when it has no \<open>=\<close>.
\<close>

fun scan_cookies :: "string list \<Rightarrow> string option" where
  "scan_cookies [] = None"
| "scan_cookies (c # cs) =
     (case split_on (CHR ''='') (trim c) of
        [] \<Rightarrow> scan_cookies cs
      | n # rest \<Rightarrow>
          if n = ''glide_user_session'' \<or> n = ''JSESSIONID''
          then (case rest of [] \<Rightarrow> None | v # _ \<Rightarrow> Some v)
          else scan_cookies cs)"

definition getSessionToken :: "page \<Rightarrow> string option" where
  "getSessionToken pg =
     (if truthy_str (window_g_ck pg) then window_g_ck pg
      else (case scan_scripts (scripts pg) of
              Some tok \<Rightarrow> Some tok
            | None \<Rightarrow> scan_cookies (split_on (CHR '';'') (cookie pg))))"

text \<open>The request of the client, the response of the bridge, and what the handler does.\<close>

record bg_request =
  req_messageId :: string
  req_script :: string
  req_scope :: "string option"

datatype bg_payload = ErrorField string | HtmlField string

record fetch_request =
  fetch_url :: string
  fetch_method :: string
  fetch_headers :: "(string \<times> string) list"
  fetch_body :: "(string \<times> string) list"
  fetch_credentials :: string

datatype effect = PostMessage "bg_payload message" | Fetch fetch_request

definition bg_response :: "string \<Rightarrow> bg_payload \<Rightarrow> bg_payload message" where
  "bg_response messageId payload =
     \<lparr>msg_type = Some ''glassBackgroundScriptResponse'', msg_messageId = Some messageId,
      msg_data = payload\<rparr>"

text \<open>
  \<open>handleBackgroundScriptRequest(data)\<close> up to its return: the effects it has, in order.
  The body of the POST is the list of form parameters.
\<close>

definition handleBackgroundScriptRequest :: "bg_request \<Rightarrow> page \<Rightarrow> effect list" where
  "handleBackgroundScriptRequest data pg =
     (let messageId = req_messageId data;
          script = req_script data;
          scope = js_or (req_scope data) (Some []);
          g_ck = js_or (js_or (window_g_ck pg) (getSessionToken pg)) (Some [])
      in if \<not> truthy_str g_ck then
           [PostMessage (bg_response messageId (ErrorField ''No authentication token available''))]
         else
           [Fetch \<lparr>fetch_url = origin pg @ ''/sys.scripts.do'',
                   fetch_method = ''POST'',
                   fetch_headers = [(''Cache-Control'', ''no-cache''),
                                    (''Content-Type'', ''application/x-www-form-urlencoded'')],
                   fetch_body = [(''script'', script), (''runscript'', ''Run script''),
                                 (''sysparm_ck'', text_of g_ck),
                                 (''quota_managed_transaction'', ''on'')]
                                @ (if truthy_str scope then [(''sys_scope'', text_of scope)] else []),
                   fetch_credentials = ''same-origin''\<rparr>])"

text \<open>What the fetch ends with, and the message the handler's continuation posts then.\<close>

datatype fetch_result = FetchFailed string | FetchResponse bool nat string string

definition backgroundScriptCompleted :: "string \<Rightarrow> fetch_result \<Rightarrow> effect" where
  "backgroundScriptCompleted messageId res =
     (case res of
        FetchFailed msg \<Rightarrow>
          PostMessage (bg_response messageId
            (ErrorField (if msg \<noteq> [] then msg else ''Background script execution failed'')))
      | FetchResponse ok status statusText text \<Rightarrow>
          if ok then PostMessage (bg_response messageId (HtmlField text))
          else PostMessage (bg_response messageId
                 (ErrorField (''HTTP '' @ decimal status @ '': '' @ statusText))))"

text \<open>Two pages: one without any token, one whose token is in an inline script.\<close>

definition page_without_token :: page where
  "page_without_token =
     \<lparr>window_g_ck = None, scripts = [''var x = 1;'', ''window.NOW = {};''],
      cookie = ''theme=dark; glide_user_route=abc'', origin = ''https://dev.example.com''\<rparr>"

definition page_with_script_token :: page where
  "page_with_script_token =
     \<lparr>window_g_ck = None, scripts = [''var x = 1;'', ''var g_ck = 'abc123';''],
      cookie = '''', origin = ''https://dev.example.com''\<rparr>"

definition example_request :: bg_request where
  "example_request = \<lparr>req_messageId = ''glass_bg_1730000000000_1'',
                        req_script = ''gs.print(1);'', req_scope = None\<rparr>"

section \<open>Background script runner (background-script.js)\<close>

subsection \<open>JavaScript values\<close>

text \<open>
  The values \<open>JSON.parse\<close> can build, and the strings the runner pushes itself. A number
  is a double: a finite one is the real it denotes, and negative zero and the two
  infinities are values of their own. A string is the list of its UTF-16 code units. An
  object is the list of its members in the order the platform enumerates them.
\<close>

type_synonym jsstring = "nat list"

datatype jsnumber = Finite real | NegZero | PosInfinity | NegInfinity

datatype json =
    JNull
  | JBool bool
  | JNumber jsnumber
  | JString jsstring
  | JArray "json list"
  | JObject "(jsstring \<times> json) list"


subsection \<open>Cleaning and parsing the response\<close>











subsection \<open>The records of a region, in the words of the specification\<close>




subsection \<open>The example of the specification\<close>






section \<open>Properties of the command registry\<close>

lemma lower_char_idem: "lower_char (lower_char c) = lower_char c"
  unfolding lower_char_def Let_def
  by (auto simp: )

lemma toLowerCase_idem: "toLowerCase (toLowerCase s) = toLowerCase s"
  by (simp add: toLowerCase_def lower_char_idem)

lemma toLowerCase_Nil_iff: "toLowerCase s = [] \<longleftrightarrow> s = []" "[] = toLowerCase s \<longleftrightarrow> s = []"
  by (auto simp add: toLowerCase_def)

lemma aliases_fold_set_alias:
  "aliases (fold (set_alias key) as r) k =
     (if k \<in> toLowerCase ` set as then Some key else aliases r k)"
  by (induction as arbitrary: r) (auto simp: set_alias_def)

lemma commands_fold_set_alias:
  "commands (fold (set_alias key) as r) = commands r"
  by (induction as arbitrary: r) (auto simp: set_alias_def)

lemma register_valid:
  assumes "valid_command c"
  shows "fst (register c r) = Inr ()"
    and "commands (snd (register c r)) = (commands r)(name_key c \<mapsto> c)"
    and "aliases (snd (register c r)) k =
           (if k \<in> set (alias_keys c) then Some (name_key c) else aliases r k)"
  using assms
  by (auto simp: valid_command_def register_def name_key_def alias_keys_def Let_def
        aliases_fold_set_alias commands_fold_set_alias split: option.splits)

lemma register_invalid:
  "\<not> valid_command c \<Longrightarrow> register c r = (Inl (Error ''Command must have a name and execute function''), r)"
  by (auto simp: valid_command_def register_def split: option.splits)

lemma register_all_snoc:
  "register_all (cs @ [c]) r = snd (register c (register_all cs r))"
  by (simp add: register_all_def)

lemma name_key_nonempty: "valid_command c \<Longrightarrow> name_key c \<noteq> []"
  by (auto simp: valid_command_def name_key_def toLowerCase_Nil_iff split: option.splits)

lemma empty_key_absent:
  assumes "\<forall>c \<in> set cs. \<forall>as. cmd_aliases c = Some as \<longrightarrow> [] \<notin> set as"
  shows "commands (register_all cs new_registry) [] = None
       \<and> aliases (register_all cs new_registry) [] = None"
  using assms
proof (induction cs rule: rev_induct)
  case Nil
  then show ?case by (simp add: register_all_def new_registry_def)
next
  case (snoc c cs)
  then have IH: "commands (register_all cs new_registry) [] = None"
      "aliases (register_all cs new_registry) [] = None"
    by auto
  show ?case
  proof (cases "valid_command c")
    case True
    have "[] \<notin> set (alias_keys c)"
      using snoc.prems by (auto simp: alias_keys_def toLowerCase_Nil_iff split: option.splits)
    then show ?thesis
      using IH name_key_nonempty [OF True]
      by (simp add: register_all_snoc register_valid(2,3) [OF True])
  next
    case False
    then show ?thesis using IH by (simp add: register_all_snoc register_invalid)
  qed
qed

lemma trim_whitespace_only:
  assumes "\<forall>ch \<in> set line. isWhitespace ch"
  shows "trim line = []"
  using assms by (auto simp: trim_def dest: set_dropWhileD)

text \<open>
  C4: for every descriptor missing a name (absent, or the empty string, which
  \<open>!command.name\<close> treats alike) or missing an execute function, \<open>register\<close>
  fails with the invalid-descriptor error (the \<open>Error\<close> "Command must have a name and
  execute function"), and both mappings of the registry, name to descriptor and alias
  to canonical name, are exactly as they were before the call.
\<close>
theorem register_invalid_descriptor:
  assumes "cmd_name c = None \<or> cmd_name c = Some [] \<or> cmd_execute c = None"
  shows "fst (register c r) = Inl (Error ''Command must have a name and execute function'')
       \<and> commands (snd (register c r)) = commands r
       \<and> aliases (snd (register c r)) = aliases r"
  using assms by (auto simp: register_def split: option.splits)

theorem register_invalid_descriptor_witness:
  "(cmd_name cmd_no_execute = None \<or> cmd_name cmd_no_execute = Some []
      \<or> cmd_execute cmd_no_execute = None)
   \<and> fst (register cmd_no_execute (register_all [cmd_list] new_registry))
       = Inl (Error ''Command must have a name and execute function'')
   \<and> commands (snd (register cmd_no_execute (register_all [cmd_list] new_registry)))
       = commands (register_all [cmd_list] new_registry)
   \<and> aliases (snd (register cmd_no_execute (register_all [cmd_list] new_registry)))
       = aliases (register_all [cmd_list] new_registry)"
  using register_invalid_descriptor [of cmd_no_execute "register_all [cmd_list] new_registry"]
  by (simp add: cmd_no_execute_def)

text \<open>
  C5, as amended: for every registered descriptor with a validate function and every
  argument list for which validate returns a value other than \<open>true\<close>, dispatch never
  calls the descriptor's execute and leaves the world as it was; the error shown to the
  user is the returned value itself when that value is truthy (a non-empty string), and
  the text "Invalid arguments for <name>" when it is falsy (\<open>false\<close>, the empty string
  or \<open>undefined\<close>).
\<close>
theorem validate_failure_stops_dispatch:
  assumes "split_ws (trim line) = token # args"
    and "get token r = Some d"
    and "cmd_validate d = Some v"
    and "v args \<noteq> VBool True"
  shows "executeCommand line w r =
           (Some (if truthy (v args) then message_of (v args)
                  else ''Invalid arguments for '' @ name_text (cmd_name d)),
            w, [ValidateCall (cmd_name d) args])"
  using assms by (simp add: executeCommand_def execute_def Let_def)

lemma lower_list: "toLowerCase ''list'' = ''list''" "toLowerCase ''ls'' = ''ls''"
  "toLowerCase ''l'' = ''l''" "toLowerCase ''LS'' = ''ls''"  "toLowerCase ''blank'' = ''blank''"
  "toLowerCase ''impersonate'' = ''impersonate''" "toLowerCase ''imp'' = ''imp''" "toLowerCase ''su'' = ''su''"
  "toLowerCase ''home'' = ''home''" "toLowerCase [] = []"
  by code_simp+

lemma split_list: "split_ws (trim ''list'') = [''list'']" "split_ws (trim ''blank'') = [''blank'']"
  "split_ws (trim ''   '') = [[]]"
  by (simp_all add: split_ws_def trim_def isWhitespace_def)

lemma get_list: "get ''list'' (register_all [cmd_list] new_registry) = Some cmd_list"
  by (simp add: register_all_def register_def new_registry_def cmd_list_def get_def lower_list set_alias_def)

theorem validate_failure_stops_dispatch_witness:
  "split_ws (trim ''list'') = ''list'' # []
   \<and> get ''list'' (register_all [cmd_list] new_registry) = Some cmd_list
   \<and> cmd_validate cmd_list = Some list_validate
   \<and> list_validate [] \<noteq> VBool True
   \<and> executeCommand ''list'' () (register_all [cmd_list] new_registry) =
       (Some ''Usage: list <table_name>'', (), [ValidateCall (Some ''list'') []])"
proof -
  have 1: "split_ws (trim ''list'') = ''list'' # []" by (simp add: split_list)
  have 2: "get ''list'' (register_all [cmd_list] new_registry) = Some cmd_list" by (rule get_list)
  have 3: "cmd_validate cmd_list = Some list_validate" by (simp add: cmd_list_def)
  have 4: "list_validate [] \<noteq> VBool True" by (simp add: list_validate_def)
  show ?thesis
    using validate_failure_stops_dispatch [OF 1 2 3 4, of "()"] 1 2 3 4
    by (simp add: list_validate_def cmd_list_def)
qed

text \<open>
  C5 as stated fails: the validator of \<open>cmd_blank\<close> returns the empty string, a value
  other than \<open>true\<close>, and the error shown is not that value but the fallback text.
\<close>
theorem validate_verbatim_counterexample:
  "get ''blank'' (register_all [cmd_blank] new_registry) = Some cmd_blank
   \<and> cmd_validate cmd_blank = Some blank_validate
   \<and> blank_validate [] = VString []
   \<and> executeCommand ''blank'' () (register_all [cmd_blank] new_registry) =
       (Some ''Invalid arguments for blank'', (), [ValidateCall (Some ''blank'') []])"
  by (simp add: register_all_def register_def new_registry_def cmd_blank_def get_def lower_list
      blank_validate_def executeCommand_def execute_def split_list name_text_def)

text \<open>
  C10, as amended: in a registry filled by calls of \<open>register\<close> in which no descriptor
  lists the empty string among its aliases, dispatch of every input line consisting only
  of white space (the empty line included) fails with the unknown-command error whose
  command token is the empty string, changes nothing and calls no descriptor's validate
  or execute.
\<close>
theorem whitespace_line_unknown_command:
  assumes "\<forall>c \<in> set cs. \<forall>as. cmd_aliases c = Some as \<longrightarrow> [] \<notin> set as"
    and "\<forall>ch \<in> set line. isWhitespace ch"
  shows "execute line w (register_all cs new_registry) =
           (Inl (Error ''Unknown command: . Type 'help' for available commands.''), w, [])"
proof -
  have "get [] (register_all cs new_registry) = None"
    using empty_key_absent [OF assms(1)] by (simp add: get_def toLowerCase_def)
  then show ?thesis
    using trim_whitespace_only [OF assms(2)]
    by (simp add: execute_def split_ws_def)
qed

theorem whitespace_line_unknown_command_witness:
  "cmd_aliases cmd_list = Some [''ls'', ''l'']
   \<and> cmd_aliases cmd_impersonate = Some [''imp'', ''su'']
   \<and> list_all isWhitespace ''   ''
   \<and> execute ''   '' () (register_all [cmd_list, cmd_impersonate] new_registry) =
           (Inl (Error ''Unknown command: . Type 'help' for available commands.''), (), [])"
proof -
  have 1: "\<forall>c \<in> set [cmd_list, cmd_impersonate]. \<forall>as. cmd_aliases c = Some as \<longrightarrow> [] \<notin> set as"
    by (simp add: cmd_list_def cmd_impersonate_def)
  have 2: "\<forall>ch \<in> set ''   ''. isWhitespace ch" by (simp add: isWhitespace_def)
  show ?thesis using whitespace_line_unknown_command [OF 1 2, of "()"] 2
    by (simp add: cmd_list_def cmd_impersonate_def)
qed

text \<open>
  C10 as stated fails: with a descriptor registered under the empty alias, a line of
  blanks resolves to that descriptor and its execute is called.
\<close>
theorem whitespace_line_counterexample:
  "list_all isWhitespace ''   ''
   \<and> execute ''   '' () (register_all [cmd_empty_alias] new_registry) =
       (Inr (), (), [ExecuteCall (Some ''home'') []])"
proof -
  have g: "get [] (register_all [cmd_empty_alias] new_registry) = Some cmd_empty_alias"
    by (simp add: register_all_def register_def new_registry_def cmd_empty_alias_def get_def lower_list
         set_alias_def Let_def)
  have w: "\<forall>ch \<in> set ''   ''. isWhitespace ch" by (simp add: isWhitespace_def)
  show ?thesis using g w
    by (simp add: execute_def split_list run_command_def noop_execute_def cmd_empty_alias_def)
qed

text \<open>
  C6 as stated fails: \<open>ls\<close> is an alias of the registered descriptor \<open>cmd_list\<close>, and it
  is the name of \<open>cmd_ls\<close>; \<open>get\<close> finds the name first and returns \<open>cmd_ls\<close>.
\<close>
theorem alias_collision_counterexample:
  "valid_command cmd_list \<and> valid_command cmd_ls
   \<and> ''ls'' \<in> set (the (cmd_aliases cmd_list))
   \<and> get ''ls'' (register_all [cmd_list, cmd_ls] new_registry) = Some cmd_ls
   \<and> cmd_ls \<noteq> cmd_list"
  by (simp add: register_all_def register_def new_registry_def cmd_list_def cmd_ls_def get_def lower_list
      valid_command_def set_alias_def)

lemma no_collisions_snoc:
  "no_collisions (cs @ [c]) \<longleftrightarrow>
     no_collisions cs \<and> (\<forall>d \<in> set cs. set (command_keys d) \<inter> set (command_keys c) = {})"
  by (induction cs) auto

lemma no_collisions_disjoint:
  "no_collisions cs \<Longrightarrow> c \<in> set cs \<Longrightarrow> d \<in> set cs \<Longrightarrow> c \<noteq> d \<Longrightarrow>
     set (command_keys c) \<inter> set (command_keys d) = {}"
  by (induction cs) auto

lemma registry_invariant:
  assumes "\<forall>c \<in> set cs. valid_command c" and "no_collisions cs"
  shows "(\<forall>c \<in> set cs. commands (register_all cs new_registry) (name_key c) = Some c)
       \<and> dom (commands (register_all cs new_registry)) = name_key ` set cs
       \<and> (\<forall>c \<in> set cs. \<forall>k \<in> set (alias_keys c).
             aliases (register_all cs new_registry) k = Some (name_key c))"
  using assms
proof (induction cs rule: rev_induct)
  case Nil
  then show ?case by (simp add: register_all_def new_registry_def)
next
  case (snoc c cs)
  have v: "valid_command c" and vs: "\<forall>c \<in> set cs. valid_command c"
    using snoc.prems(1) by auto
  have nc: "no_collisions cs"
    and dj: "\<forall>d \<in> set cs. set (command_keys d) \<inter> set (command_keys c) = {}"
    using snoc.prems(2) by (auto simp: no_collisions_snoc)
  note IH = snoc.IH [OF vs nc]
  have dj1: "\<And>d. d \<in> set cs \<Longrightarrow> name_key d \<noteq> name_key c"
    using dj by (auto simp: command_keys_def)
  have dj2: "\<And>d k. d \<in> set cs \<Longrightarrow> k \<in> set (alias_keys d) \<Longrightarrow> k \<notin> set (alias_keys c)"
    using dj by (auto simp: command_keys_def)
  have 1: "\<forall>d \<in> set (cs @ [c]). commands (register_all (cs @ [c]) new_registry) (name_key d) = Some d"
    using IH dj1 by (auto simp: register_all_snoc register_valid(2) [OF v])
  have 2: "dom (commands (register_all (cs @ [c]) new_registry)) = name_key ` set (cs @ [c])"
    using IH by (simp add: register_all_snoc register_valid(2) [OF v])
  have 3: "\<forall>d \<in> set (cs @ [c]). \<forall>k \<in> set (alias_keys d).
             aliases (register_all (cs @ [c]) new_registry) k = Some (name_key d)"
    using IH dj2 by (auto simp: register_all_snoc register_valid(3) [OF v])
  from 1 2 3 show ?case by blast
qed

lemma get_registered:
  assumes "\<forall>c \<in> set cs. valid_command c" and "no_collisions cs"
    and "c \<in> set cs" and "toLowerCase token \<in> set (command_keys c)"
  shows "get token (register_all cs new_registry) = Some c"
proof -
  let ?r = "register_all cs new_registry"
  note inv = registry_invariant [OF assms(1,2)]
  have cm: "commands ?r (name_key c) = Some c"
    using inv assms(3) by blast
  show ?thesis
  proof (cases "toLowerCase token = name_key c")
    case True
    then show ?thesis using cm by (simp add: get_def)
  next
    case False
    then have k: "toLowerCase token \<in> set (alias_keys c)"
      using assms(4) by (simp add: command_keys_def)
    have al: "aliases ?r (toLowerCase token) = Some (name_key c)"
      using inv assms(3) k by blast
    have "commands ?r (toLowerCase token) = None"
    proof (rule ccontr)
      assume "commands ?r (toLowerCase token) \<noteq> None"
      then have "toLowerCase token \<in> dom (commands ?r)" by auto
      then obtain d where d: "d \<in> set cs" "toLowerCase token = name_key d"
        using inv by auto
      have "d \<noteq> c" using d False by auto
      then have "set (command_keys c) \<inter> set (command_keys d) = {}"
        using no_collisions_disjoint [OF assms(2,3) d(1)] by blast
      moreover have "toLowerCase token \<in> set (command_keys d)"
        using d by (simp add: command_keys_def)
      ultimately show False using assms(4) by blast
    qed
    then show ?thesis using al cm by (simp add: get_def)
  qed
qed

text \<open>
  C6, as amended: in a registry filled by registering valid descriptors of which no
  lower-cased name or alias of one is a name or alias of another, \<open>get\<close> applied to the
  name of a registered descriptor and to each of its aliases, in any letter case, returns
  that descriptor. Resolution is case-insensitive (\<open>get\<close> of a token is \<open>get\<close> of the
  lower-cased token) and checks the name map before the alias map: a token found in the
  name map resolves to the descriptor stored there, whatever the alias map holds.
\<close>
theorem alias_transparency:
  assumes "\<forall>c \<in> set cs. valid_command c" and "no_collisions cs" and "c \<in> set cs"
  shows "(\<forall>n. cmd_name c = Some n \<longrightarrow> get n (register_all cs new_registry) = Some c)
       \<and> (\<forall>as. cmd_aliases c = Some as \<longrightarrow>
             (\<forall>a \<in> set as. get a (register_all cs new_registry) = Some c))
       \<and> (toLowerCase token \<in> set (command_keys c) \<longrightarrow>
             get token (register_all cs new_registry) = Some c)
       \<and> get token r = get (toLowerCase token) r
       \<and> (commands r (toLowerCase token) = Some d \<longrightarrow> get token r = Some d)"
proof -
  have "get n (register_all cs new_registry) = Some c" if "cmd_name c = Some n" for n
    using that by (intro get_registered [OF assms]) (simp add: command_keys_def name_key_def)
  moreover have "get a (register_all cs new_registry) = Some c"
    if "cmd_aliases c = Some as" "a \<in> set as" for a as
    using that by (intro get_registered [OF assms]) (simp add: command_keys_def alias_keys_def)
  moreover have "get token (register_all cs new_registry) = Some c"
    if "toLowerCase token \<in> set (command_keys c)"
    using that by (rule get_registered [OF assms])
  moreover have "get token r = get (toLowerCase token) r"
    by (simp add: get_def toLowerCase_idem)
  moreover have "get token r = Some d" if "commands r (toLowerCase token) = Some d"
    using that by (simp add: get_def)
  ultimately show ?thesis by blast
qed

lemma example_keys:
  "command_keys cmd_list = [''list'', ''ls'', ''l'']"
  "command_keys cmd_impersonate = [''impersonate'', ''imp'', ''su'']"
  "command_keys cmd_ls = [''ls'']"
  by (simp_all add: command_keys_def name_key_def alias_keys_def cmd_list_def cmd_impersonate_def
      cmd_ls_def lower_list)

theorem alias_transparency_witness:
  "valid_command cmd_list \<and> valid_command cmd_impersonate
   \<and> no_collisions [cmd_list, cmd_impersonate]
   \<and> cmd_list \<in> set [cmd_list, cmd_impersonate]
   \<and> cmd_name cmd_list = Some ''list''
   \<and> get ''list'' (register_all [cmd_list, cmd_impersonate] new_registry) = Some cmd_list
   \<and> cmd_aliases cmd_list = Some [''ls'', ''l'']
   \<and> get ''ls'' (register_all [cmd_list, cmd_impersonate] new_registry) = Some cmd_list
   \<and> get ''l'' (register_all [cmd_list, cmd_impersonate] new_registry) = Some cmd_list
   \<and> toLowerCase ''LS'' \<in> set (command_keys cmd_list)
   \<and> get ''LS'' (register_all [cmd_list, cmd_impersonate] new_registry) = Some cmd_list
   \<and> commands (register_all [cmd_list, cmd_ls] new_registry) (toLowerCase ''LS'') = Some cmd_ls
   \<and> get ''LS'' (register_all [cmd_list, cmd_ls] new_registry) = Some cmd_ls"
proof -
  have 1: "\<forall>c \<in> set [cmd_list, cmd_impersonate]. valid_command c"
    by (simp add: valid_command_def cmd_list_def cmd_impersonate_def)
  have 2: "no_collisions [cmd_list, cmd_impersonate]"
    by (simp add: example_keys)
  have 3: "cmd_list \<in> set [cmd_list, cmd_impersonate]" by simp
  have 4: "cmd_name cmd_list = Some ''list''" "cmd_aliases cmd_list = Some [''ls'', ''l'']"
    by (simp_all add: cmd_list_def)
  have 5: "toLowerCase ''LS'' \<in> set (command_keys cmd_list)"
    by (simp add: example_keys lower_list)
  have 6: "commands (register_all [cmd_list, cmd_ls] new_registry) (toLowerCase ''LS'') = Some cmd_ls"
    by (simp add: register_all_def register_def new_registry_def cmd_list_def cmd_ls_def
        lower_list set_alias_def Let_def)
  show ?thesis
    using alias_transparency [OF 1 2 3, of "''LS''" "register_all [cmd_list, cmd_ls] new_registry" cmd_ls]
      1 2 3 4 5 6
    by auto
qed

section \<open>Properties of table name resolution\<close>







text \<open>
  C7, as amended: \<open>resolveTableName\<close> returns the technical name of an entry whose
  technical name equals the input up to letter case, if there is one; otherwise the
  technical name of an entry whose display name equals the input up to letter case, if
  there is one; otherwise the input in lower case. The function is total: it has no
  failing branch.
\<close>

theorem resolveTableName_fallback:
  "((\<exists>d \<in> set tables. toLowerCase (table d) = toLowerCase input) \<longrightarrow>
      (\<exists>d \<in> set tables. toLowerCase (table d) = toLowerCase input
          \<and> resolveTableName tables input = table d))
   \<and> (\<not> (\<exists>d \<in> set tables. toLowerCase (table d) = toLowerCase input)
        \<and> (\<exists>d \<in> set tables. toLowerCase (name d) = toLowerCase input) \<longrightarrow>
      (\<exists>d \<in> set tables. toLowerCase (name d) = toLowerCase input
          \<and> resolveTableName tables input = table d))
   \<and> (\<not> (\<exists>d \<in> set tables. toLowerCase (table d) = toLowerCase input)
        \<and> \<not> (\<exists>d \<in> set tables. toLowerCase (name d) = toLowerCase input) \<longrightarrow>
      resolveTableName tables input = toLowerCase input)"
proof -
  let ?byTable = "find (\<lambda>def. toLowerCase (table def) = toLowerCase input) tables"
  let ?byName = "find (\<lambda>def. toLowerCase (name def) = toLowerCase input) tables"
  have T: "?byTable = None \<longleftrightarrow> \<not> (\<exists>d \<in> set tables. toLowerCase (table d) = toLowerCase input)"
    by (auto simp: find_None_iff)
  have N: "?byName = None \<longleftrightarrow> \<not> (\<exists>d \<in> set tables. toLowerCase (name d) = toLowerCase input)"
    by (auto simp: find_None_iff)
  have TS: "d \<in> set tables \<and> toLowerCase (table d) = toLowerCase input" if "?byTable = Some d" for d
    using that by (auto simp: find_Some_iff)
  have NS: "d \<in> set tables \<and> toLowerCase (name d) = toLowerCase input" if "?byName = Some d" for d
    using that by (auto simp: find_Some_iff)
  show ?thesis
  proof (cases ?byTable)
    case (Some d)
    then have "resolveTableName tables input = table d"
      by (simp add: resolveTableName_def)
    then show ?thesis using TS [OF Some] by blast
  next
    case None
    note noT = None
    show ?thesis
    proof (cases ?byName)
      case (Some d)
      then have "resolveTableName tables input = table d"
        using noT by (simp add: resolveTableName_def)
      then show ?thesis using NS [OF Some] noT T by blast
    next
      case None
      then have "resolveTableName tables input = toLowerCase input"
        using noT by (simp add: resolveTableName_def)
      then show ?thesis using None noT T N by blast
    qed
  qed
qed

theorem resolveTableName_fallback_witness:
  "toLowerCase (table incident_def) = toLowerCase ''INCIDENT''
   \<and> resolveTableName [incident_def, incident_task_def] ''INCIDENT'' = ''incident''
   \<and> toLowerCase (table incident_def) \<noteq> toLowerCase ''incident task''
   \<and> toLowerCase (table incident_task_def) \<noteq> toLowerCase ''incident task''
   \<and> toLowerCase (name incident_task_def) = toLowerCase ''incident task''
   \<and> resolveTableName [incident_def, incident_task_def] ''incident task'' = ''incident_task''
   \<and> resolveTableName [incident_def, incident_task_def] ''nonexistent_xyz'' = ''nonexistent_xyz''"
proof -
  have f: "toLowerCase (table incident_def) = ''incident''"
    "toLowerCase (table incident_task_def) = ''incident_task''"
    "toLowerCase (name incident_def) = ''incident''"
    "toLowerCase (name incident_task_def) = ''incident task''"
    "toLowerCase ''INCIDENT'' = ''incident''"
    "toLowerCase ''incident task'' = ''incident task''"
    "toLowerCase ''nonexistent_xyz'' = ''nonexistent_xyz''"
    "toLowerCase ''incident'' = ''incident''"
    "toLowerCase ''incident_task'' = ''incident_task''"
    "toLowerCase ''Incident'' = ''incident''"
    "toLowerCase ''Incident Task'' = ''incident task''"
    by code_simp+
  have t: "table incident_def = ''incident''" "table incident_task_def = ''incident_task''"
    "name incident_def = ''Incident''" "name incident_task_def = ''Incident Task''"
    by (simp_all add: incident_def_def incident_task_def_def)
  show ?thesis
    using resolveTableName_fallback [of "[incident_def, incident_task_def]" "''INCIDENT''"]
      resolveTableName_fallback [of "[incident_def, incident_task_def]" "''incident task''"]
      resolveTableName_fallback [of "[incident_def, incident_task_def]" "''nonexistent_xyz''"]
    by (simp add: f t)
qed

text \<open>
  C7 as stated fails: an unknown input with capital letters is not returned verbatim.
\<close>

theorem resolveTableName_verbatim_counterexample:
  "resolveTableName [incident_def, incident_task_def] ''U_Custom'' = ''u_custom''
   \<and> ''u_custom'' \<noteq> ''U_Custom''"
  by code_simp

section \<open>Properties of the bridge client\<close>

lemma digit_char_inj:
  assumes "a < 10" and "b < 10" and "digit_char a = digit_char b"
  shows "a = b"
proof -
  have "distinct ''0123456789''" by simp
  then show ?thesis
    using assms by (simp add: digit_char_def nth_eq_iff_index_eq)
qed

lemma digit_char_not_underscore: "k < 10 \<Longrightarrow> digit_char k \<noteq> CHR ''_''"
proof -
  assume "k < 10"
  then have "digit_char k \<in> set ''0123456789''"
    unfolding digit_char_def by (intro nth_mem) simp
  then show ?thesis by auto
qed

lemma decimal_small: "n < 10 \<Longrightarrow> decimal n = [digit_char n]"
  by (subst decimal.simps) simp

lemma decimal_large: "\<not> n < 10 \<Longrightarrow> decimal n = decimal (n div 10) @ [digit_char (n mod 10)]"
  by (subst decimal.simps) simp

lemma decimal_nonempty: "decimal n \<noteq> []"
  by (cases "n < 10") (simp_all add: decimal_small decimal_large)

lemma decimal_inj: "decimal a = decimal b \<Longrightarrow> a = b"
proof (induction a arbitrary: b rule: decimal.induct)
  case (1 n)
  show ?case
  proof (cases "n < 10")
    case True
    show ?thesis
    proof (cases "b < 10")
      case b: True
      have "digit_char n = digit_char b"
        using "1.prems" by (simp add: decimal_small True b)
      then show ?thesis by (rule digit_char_inj [OF True b])
    next
      case False
      have "[digit_char n] = decimal (b div 10) @ [digit_char (b mod 10)]"
        using "1.prems" by (simp add: decimal_small [OF True] decimal_large [OF False])
      then have "decimal (b div 10) = []" by simp
      then show ?thesis using decimal_nonempty by blast
    qed
  next
    case False
    show ?thesis
    proof (cases "b < 10")
      case True
      have "decimal (n div 10) @ [digit_char (n mod 10)] = [digit_char b]"
        using "1.prems" by (simp add: decimal_small [OF True] decimal_large [OF False])
      then have "decimal (n div 10) = []" by simp
      then show ?thesis using decimal_nonempty by blast
    next
      case b: False
      have "decimal (n div 10) @ [digit_char (n mod 10)] = decimal (b div 10) @ [digit_char (b mod 10)]"
        using "1.prems" by (simp add: decimal_large [OF False] decimal_large [OF b])
      then have e: "decimal (n div 10) = decimal (b div 10)"
        "digit_char (n mod 10) = digit_char (b mod 10)" by simp_all
      have "n div 10 = b div 10" using "1.IH" [OF False e(1)] .
      moreover have "n mod 10 = b mod 10"
        by (rule digit_char_inj [OF _ _ e(2)]) simp_all
      ultimately show ?thesis by (metis div_mult_mod_eq)
    qed
  qed
qed

lemma decimal_digits: "c \<in> set (decimal n) \<Longrightarrow> c \<noteq> CHR ''_''"
proof (induction n rule: decimal.induct)
  case (1 n)
  show ?case
  proof (cases "n < 10")
    case True
    then show ?thesis
      using "1.prems" digit_char_not_underscore [OF True] by (simp add: decimal_small)
  next
    case False
    have "n mod 10 < 10" by simp
    then show ?thesis
      using "1.prems" "1.IH" [OF False] digit_char_not_underscore [of "n mod 10"]
      by (auto simp: decimal_large [OF False])
  qed
qed

lemma last_field:
  "CHR ''_'' \<notin> set b \<Longrightarrow>
     rev (takeWhile (\<lambda>c. c \<noteq> CHR ''_'') (rev (a @ CHR ''_'' # b))) = b"
proof -
  assume b: "CHR ''_'' \<notin> set b"
  have "takeWhile (\<lambda>c. c \<noteq> CHR ''_'') (rev b @ CHR ''_'' # rev a)
          = rev b @ takeWhile (\<lambda>c. c \<noteq> CHR ''_'') (CHR ''_'' # rev a)"
    by (rule takeWhile_append2) (use b in auto)
  then show ?thesis by simp
qed

lemma split_at_underscore:
  assumes "a @ CHR ''_'' # b = a' @ CHR ''_'' # b'"
    and "CHR ''_'' \<notin> set b" and "CHR ''_'' \<notin> set b'"
  shows "b = b'"
proof -
  have "b = rev (takeWhile (\<lambda>c. c \<noteq> CHR ''_'') (rev (a @ CHR ''_'' # b)))"
    by (rule last_field [OF assms(2), symmetric])
  also have "\<dots> = rev (takeWhile (\<lambda>c. c \<noteq> CHR ''_'') (rev (a' @ CHR ''_'' # b')))"
    by (simp only: assms(1))
  also have "\<dots> = b'"
    by (rule last_field [OF assms(3)])
  finally show ?thesis .
qed


lemma messageId_counter:
  assumes "messageId_of n c = messageId_of n' c'"
  shows "c = c'"
proof -
  have "decimal n @ ''_'' @ decimal c = decimal n' @ ''_'' @ decimal c'"
    using assms by (simp only: messageId_of_def same_append_eq)
  then have "decimal n @ CHR ''_'' # decimal c = decimal n' @ CHR ''_'' # decimal c'"
    by (simp only: append_Cons append_Nil)
  moreover have "CHR ''_'' \<notin> set (decimal c)" "CHR ''_'' \<notin> set (decimal c')"
    using decimal_digits by blast+
  ultimately have "decimal c = decimal c'"
    by (rule split_at_underscore)
  then show ?thesis by (rule decimal_inj)
qed

lemma sendMessage_state:
  assumes "sendMessage ty d now s = (p, s')"
  shows "p = next_id s"
    and "messageHandlers s' = (messageHandlers s)(messageId_of now (increment (messageIdCounter s)) \<mapsto>
            \<lparr>h_promise = next_id s, h_timeout = next_id s + 1\<rparr>)"
    and "promises s' = (promises s)(next_id s \<mapsto> Pending)"
    and "timers s' = (timers s)
            (next_id s + 1 \<mapsto> RequestTimeout (messageId_of now (increment (messageIdCounter s))) ty (next_id s),
             next_id s + 2 \<mapsto> PostRequest \<lparr>msg_type = Some ty,
                 msg_messageId = Some (messageId_of now (increment (messageIdCounter s))), msg_data = d\<rparr>)"
    and "messageIdCounter s' = increment (messageIdCounter s)"
    and "next_id s' = next_id s + 3"
    and "steps s' = steps s @ [HandlerSet (messageId_of now (increment (messageIdCounter s)))]"
    and "posted s' = posted s"
  using assms
  by (auto simp: sendMessage_def generateMessageId_def handlers_set_def Let_def)

lemma includes_nonempty: "includes_str t ''Response'' \<Longrightarrow> t \<noteq> []"
  by (cases t) simp_all

lemma handleMessage_response:
  assumes "messageHandlers s mid = Some h" and "mid \<noteq> []"
    and "msg_messageId m = Some mid" and "msg_type m = Some t" and "includes_str t ''Response''"
  shows "handleMessage m s =
           resolve (h_promise h) m
             (if h_timeout h \<noteq> 0 then clearTimeout (h_timeout h) (handlers_delete mid s)
              else handlers_delete mid s)"
  using assms includes_nonempty [OF assms(5)]
  by (simp add: handleMessage_def Let_def)


lemma resolve_fields:
  "promises (resolve p m s) = (if promises s p = Some Pending then (promises s)(p \<mapsto> Resolved m) else promises s)"
  "messageHandlers (resolve p m s) = messageHandlers s"
  "timers (resolve p m s) = timers s"
  "steps (resolve p m s) = steps s @ [Resolve p]"
  by (auto simp: resolve_def settle_def split: option.splits settlement.splits)

lemma reject_fields:
  "promises (reject p e s) = (if promises s p = Some Pending then (promises s)(p \<mapsto> Rejected e) else promises s)"
  "messageHandlers (reject p e s) = messageHandlers s"
  "timers (reject p e s) = timers s"
  "steps (reject p e s) = steps s @ [Reject p]"
  by (auto simp: reject_def settle_def split: option.splits settlement.splits)

lemma handlers_delete_fields:
  "promises (handlers_delete k s) = promises s"
  "messageHandlers (handlers_delete k s) = (messageHandlers s)(k := None)"
  "timers (handlers_delete k s) = timers s"
  "steps (handlers_delete k s) = steps s @ [HandlerDelete k]"
  by (simp_all add: handlers_delete_def)

lemma clearTimeout_fields:
  "promises (clearTimeout t s) = promises s"
  "messageHandlers (clearTimeout t s) = messageHandlers s"
  "timers (clearTimeout t s) = (timers s)(t := None)"
  "steps (clearTimeout t s) = steps s @ [ClearTimeout t]"
  by (simp_all add: clearTimeout_def)

lemmas api_fields = resolve_fields reject_fields handlers_delete_fields clearTimeout_fields

lemma increment_below: "c < 2 ^ 53 \<Longrightarrow> increment c = c + 1"
  by (simp add: increment_def)

lemma increment_ge: "c \<le> increment c"
  by (simp add: increment_def)


text \<open>
  Below the bound of the counter two requests sent one after the other have distinct
  correlation ids, whatever the clock says.
\<close>

lemma distinct_ids_below_bound:
  assumes send1: "sendMessage ty1 d1 now1 s0 = (p1, s1)"
    and id1: "generateMessageId now1 s0 = (id1, g1)"
    and id2: "generateMessageId now2 s1 = (id2, g2)"
    and bound: "messageIdCounter s0 + 1 < 2 ^ 53"
  shows "id1 \<noteq> id2"
proof
  assume e: "id1 = id2"
  note S1 = sendMessage_state [OF send1]
  have c0: "increment (messageIdCounter s0) = messageIdCounter s0 + 1"
    using bound by (simp add: increment_def)
  have cs1: "messageIdCounter s1 = messageIdCounter s0 + 1"
    using S1(5) c0 by simp
  have c1: "increment (messageIdCounter s1) = messageIdCounter s0 + 2"
    using bound by (simp add: increment_def cs1)
  have "id1 = messageId_of now1 (increment (messageIdCounter s0))"
    using id1 by (simp add: generateMessageId_def Let_def)
  then have i1: "id1 = messageId_of now1 (messageIdCounter s0 + 1)"
    by (simp only: c0)
  have "id2 = messageId_of now2 (increment (messageIdCounter s1))"
    using id2 by (simp add: generateMessageId_def Let_def)
  then have i2: "id2 = messageId_of now2 (messageIdCounter s0 + 2)"
    by (simp only: c1)
  have "messageIdCounter s0 + 1 = messageIdCounter s0 + 2"
    using e unfolding i1 i2 by (rule messageId_counter)
  then show False by simp
qed

text \<open>
  Once the counter has reached \<open>2^53\<close>, two requests sent in the same millisecond get
  the same correlation id, and the second one takes the table entry of the first.
\<close>

lemma same_id_at_bound:
  assumes send1: "sendMessage ty1 d1 now s0 = (p1, s1)"
    and send2: "sendMessage ty2 d2 now s1 = (p2, s2)"
    and id1: "generateMessageId now s0 = (id1, g1)"
    and id2: "generateMessageId now s1 = (id2, g2)"
    and bound: "messageIdCounter s0 = 2 ^ 53"
  shows "id1 = id2 \<and> (\<exists>h. messageHandlers s2 id1 = Some h \<and> h_promise h = p2) \<and> p1 \<noteq> p2"
proof -
  note S1 = sendMessage_state [OF send1]
  note S2 = sendMessage_state [OF send2]
  have c0: "increment (messageIdCounter s0) = messageIdCounter s0"
    by (simp add: increment_def bound)
  have cs1: "messageIdCounter s1 = messageIdCounter s0"
    using S1(5) c0 by simp
  have c1: "increment (messageIdCounter s1) = messageIdCounter s0"
    by (simp only: cs1 c0)
  have "id1 = messageId_of now (increment (messageIdCounter s0))"
    using id1 by (simp add: generateMessageId_def Let_def)
  then have i1: "id1 = messageId_of now (messageIdCounter s0)"
    by (simp only: c0)
  have "id2 = messageId_of now (increment (messageIdCounter s1))"
    using id2 by (simp add: generateMessageId_def Let_def)
  then have i2: "id2 = messageId_of now (messageIdCounter s0)"
    by (simp only: c1)
  have "messageHandlers s2 (messageId_of now (increment (messageIdCounter s1)))
          = Some \<lparr>h_promise = p2, h_timeout = next_id s1 + 1\<rparr>"
    by (simp add: S2(2) S2(1))
  then have "messageHandlers s2 id1 = Some \<lparr>h_promise = p2, h_timeout = next_id s1 + 1\<rparr>"
    by (simp only: c1 i1)
  moreover have "p1 \<noteq> p2" using S1(1) S2(1) S1(6) by simp
  ultimately show ?thesis using i1 i2 by simp
qed







section \<open>Properties of the bridge\<close>

text \<open>
  C9: when no session token is discoverable (\<open>window.g_ck\<close> is absent or empty, no
  inline script matches the \<open>g_ck\<close> pattern, and the cookies yield no session value),
  \<open>getSessionToken\<close> finds nothing and the handler of a script-execution request has
  exactly one effect: it posts the response with the error "No authentication token
  available" for the request's correlation id. It performs no fetch.
\<close>

theorem no_token_fails_fast:
  assumes "\<not> truthy_str (window_g_ck pg)"
    and "scan_scripts (scripts pg) = None"
    and "\<not> truthy_str (scan_cookies (split_on (CHR '';'') (cookie pg)))"
  shows "\<not> truthy_str (getSessionToken pg)
       \<and> handleBackgroundScriptRequest data pg =
           [PostMessage \<lparr>msg_type = Some ''glassBackgroundScriptResponse'',
                         msg_messageId = Some (req_messageId data),
                         msg_data = ErrorField ''No authentication token available''\<rparr>]
       \<and> (\<forall>f. Fetch f \<notin> set (handleBackgroundScriptRequest data pg))"
proof -
  have t: "\<not> truthy_str (getSessionToken pg)"
    using assms by (simp add: getSessionToken_def)
  then have "handleBackgroundScriptRequest data pg =
           [PostMessage (bg_response (req_messageId data) (ErrorField ''No authentication token available''))]"
    using assms(1) by (simp add: handleBackgroundScriptRequest_def Let_def js_or_def truthy_str_def)
  then show ?thesis using t by (simp add: bg_response_def)
qed

theorem no_token_fails_fast_witness:
  "\<not> truthy_str (window_g_ck page_without_token)
   \<and> scan_scripts (scripts page_without_token) = None
   \<and> \<not> truthy_str (scan_cookies (split_on (CHR '';'') (cookie page_without_token)))
   \<and> handleBackgroundScriptRequest example_request page_without_token =
        [PostMessage \<lparr>msg_type = Some ''glassBackgroundScriptResponse'',
                      msg_messageId = Some ''glass_bg_1730000000000_1'',
                      msg_data = ErrorField ''No authentication token available''\<rparr>]"
proof -
  have 1: "\<not> truthy_str (window_g_ck page_without_token)"
    by (simp add: page_without_token_def truthy_str_def)
  have 2: "scan_scripts (scripts page_without_token) = None"
    by code_simp
  have 3: "\<not> truthy_str (scan_cookies (split_on (CHR '';'') (cookie page_without_token)))"
    by code_simp
  show ?thesis
    using no_token_fails_fast [OF 1 2 3, of example_request] 1 2 3
    by (simp add: example_request_def)
qed

section \<open>Properties of the background script runner\<close>



































section \<open>The pending request table in every run\<close>

lemma handleMessage_cases:
  "handleMessage m s = s
   \<or> (\<exists>k h. messageHandlers s k = Some h
          \<and> handleMessage m s =
                resolve (h_promise h) m
                  (if h_timeout h \<noteq> 0 then clearTimeout (h_timeout h) (handlers_delete k s)
                   else handlers_delete k s))"
proof (cases "\<exists>k t h. msg_messageId m = Some k \<and> k \<noteq> [] \<and> msg_type m = Some t
                  \<and> includes_str t ''Response'' \<and> messageHandlers s k = Some h")
  case True
  then obtain k t h where "msg_messageId m = Some k" "k \<noteq> []" "msg_type m = Some t"
      "includes_str t ''Response''" "messageHandlers s k = Some h"
    by blast
  then show ?thesis using handleMessage_response [of s k h m t] by blast
next
  case False
  have "handleMessage m s = s"
  proof (cases "msg_messageId m")
    case None
    then show ?thesis by (simp add: handleMessage_def)
  next
    case k: (Some k)
    show ?thesis
    proof (cases "k = [] \<or> messageHandlers s k = None")
      case True
      then show ?thesis using k by (auto simp: handleMessage_def)
    next
      case nk: False
      show ?thesis
      proof (cases "msg_type m")
        case None
        then show ?thesis using k nk by (simp add: handleMessage_def)
      next
        case t: (Some t)
        have "\<not> includes_str t ''Response''" using False k nk t by auto
        then show ?thesis using k nk t by (simp add: handleMessage_def)
      qed
    qed
  qed
  then show ?thesis by blast
qed

lemma fire_cases:
  obtains "steps (fire t s) = steps s" "messageHandlers (fire t s) = messageHandlers s"
      "messageIdCounter (fire t s) = messageIdCounter s"
      "\<And>t'. timers (fire t s) t' = (if t' = t then None else timers s t')"
  | k ty p where "timers s t = Some (RequestTimeout k ty p)"
      "fire t s = reject p (Error (''Request timed out: '' @ ty))
                    (handlers_delete k (s\<lparr>timers := (timers s)(t := None)\<rparr>))"
proof (cases "timers s t")
  case None
  then show ?thesis using that(1) by (simp add: fire_def)
next
  case (Some a)
  then show ?thesis
  proof (cases a)
    case (RequestTimeout k ty p)
    then show ?thesis using that(2) Some by (simp add: fire_def)
  next
    case (PostRequest m)
    then show ?thesis using that(1) Some by (simp add: fire_def)
  qed
qed

lemma counter_fields:
  "messageIdCounter (resolve p m s) = messageIdCounter s"
  "messageIdCounter (reject p e s) = messageIdCounter s"
  "messageIdCounter (handlers_delete k s) = messageIdCounter s"
  "messageIdCounter (clearTimeout t s) = messageIdCounter s"
  by (auto simp: resolve_def reject_def settle_def handlers_delete_def clearTimeout_def
      split: option.splits settlement.splits)

lemma inv_settle:
  assumes inv: "table_invariant s" and h: "messageHandlers s k = Some h"
    and mh: "messageHandlers s' = (messageHandlers s)(k := None)"
    and st: "steps s' = steps s @ HandlerDelete k # rest"
    and rest: "\<forall>j. HandlerSet j \<notin> set rest \<and> HandlerDelete j \<notin> set rest"
    and cn: "messageIdCounter s' = messageIdCounter s"
    and tm: "timers s' = (timers s)(h_timeout h := None)"
  shows "table_invariant s'"
proof -
  from inv have
    I1: "\<And>j. messageHandlers s j \<noteq> None \<longleftrightarrow>
            HandlerSet j \<in> set (steps s) \<and> HandlerDelete j \<notin> set (steps s)"
    and I2: "\<And>j. count_list (steps s) (HandlerSet j) \<le> 1"
            "\<And>j. count_list (steps s) (HandlerDelete j) \<le> 1"
    and I3: "\<And>j. HandlerSet j \<in> set (steps s) \<Longrightarrow>
            \<exists>now c. j = messageId_of now c \<and> c \<le> messageIdCounter s"
    and I4: "\<And>j. HandlerDelete j \<in> set (steps s) \<Longrightarrow> HandlerSet j \<in> set (steps s)"
    and I5: "\<And>t j ty p. timers s t = Some (RequestTimeout j ty p) \<Longrightarrow>
            \<exists>h. messageHandlers s j = Some h \<and> h_timeout h = t"
    and I6: "\<And>j h. messageHandlers s j = Some h \<Longrightarrow> h_timeout h \<noteq> 0"
    unfolding table_invariant_def by blast+
  have kset: "HandlerSet k \<in> set (steps s)" and kdel: "HandlerDelete k \<notin> set (steps s)"
    using I1 [of k] h by auto
  have r0: "count_list rest (HandlerSet j) = 0" "count_list rest (HandlerDelete j) = 0" for j
    using rest by (simp_all add: count_list_0_iff)
  have J1: "messageHandlers s' j \<noteq> None \<longleftrightarrow>
            HandlerSet j \<in> set (steps s') \<and> HandlerDelete j \<notin> set (steps s')" for j
    using I1 [of j] rest by (cases "j = k") (auto simp: mh st)
  have J2a: "count_list (steps s') (HandlerSet j) \<le> 1" for j
    using I2(1) [of j] by (simp add: st r0)
  have J2b: "count_list (steps s') (HandlerDelete j) \<le> 1" for j
  proof (cases "j = k")
    case True
    have "count_list (steps s) (HandlerDelete k) = 0"
      using kdel by (simp add: count_list_0_iff)
    then show ?thesis using True by (simp add: st r0)
  next
    case False
    then show ?thesis using I2(2) [of j] by (simp add: st r0)
  qed
  have J3: "\<exists>now c. j = messageId_of now c \<and> c \<le> messageIdCounter s'"
    if "HandlerSet j \<in> set (steps s')" for j
  proof -
    have "HandlerSet j \<in> set (steps s)" using that rest by (auto simp: st)
    then show ?thesis using I3 by (simp add: cn)
  qed
  have J4: "HandlerSet j \<in> set (steps s')" if "HandlerDelete j \<in> set (steps s')" for j
  proof (cases "j = k")
    case True
    then show ?thesis using kset by (simp add: st)
  next
    case False
    then have "HandlerDelete j \<in> set (steps s)" using that rest by (auto simp: st)
    then show ?thesis using I4 by (simp add: st)
  qed
  have J5: "\<exists>h'. messageHandlers s' j = Some h' \<and> h_timeout h' = t"
    if "timers s' t = Some (RequestTimeout j ty p)" for t j ty p
  proof -
    have t: "t \<noteq> h_timeout h" and ts: "timers s t = Some (RequestTimeout j ty p)"
      using that by (auto simp: tm split: if_splits)
    then obtain h' where h': "messageHandlers s j = Some h'" "h_timeout h' = t"
      using I5 by blast
    have "j \<noteq> k" using h h' t by auto
    then show ?thesis using h' by (simp add: mh)
  qed
  have J6: "h_timeout h' \<noteq> 0" if "messageHandlers s' j = Some h'" for j h'
  proof -
    have "messageHandlers s j = Some h'" using that by (auto simp: mh split: if_splits)
    then show ?thesis by (rule I6)
  qed
  show ?thesis
    unfolding table_invariant_def
    using J1 J2a J2b J3 J4 J5 J6 by blast
qed

lemma inv_send:
  assumes inv: "table_invariant s" and bound: "messageIdCounter s < 2 ^ 53"
  shows "table_invariant (snd (sendMessage ty d now s))"
proof -
  let ?s' = "snd (sendMessage ty d now s)"
  let ?k = "messageId_of now (messageIdCounter s + 1)"
  have sp: "sendMessage ty d now s = (fst (sendMessage ty d now s), ?s')" by simp
  have inc: "increment (messageIdCounter s) = messageIdCounter s + 1"
    using bound by (rule increment_below)
  note S = sendMessage_state [OF sp, unfolded inc]
  from inv have
    I1: "\<And>j. messageHandlers s j \<noteq> None \<longleftrightarrow>
            HandlerSet j \<in> set (steps s) \<and> HandlerDelete j \<notin> set (steps s)"
    and I2: "\<And>j. count_list (steps s) (HandlerSet j) \<le> 1"
            "\<And>j. count_list (steps s) (HandlerDelete j) \<le> 1"
    and I3: "\<And>j. HandlerSet j \<in> set (steps s) \<Longrightarrow>
            \<exists>now c. j = messageId_of now c \<and> c \<le> messageIdCounter s"
    and I4: "\<And>j. HandlerDelete j \<in> set (steps s) \<Longrightarrow> HandlerSet j \<in> set (steps s)"
    and I5: "\<And>t j ty p. timers s t = Some (RequestTimeout j ty p) \<Longrightarrow>
            \<exists>h. messageHandlers s j = Some h \<and> h_timeout h = t"
    and I6: "\<And>j h. messageHandlers s j = Some h \<Longrightarrow> h_timeout h \<noteq> 0"
    unfolding table_invariant_def by blast+
  have fresh: "HandlerSet ?k \<notin> set (steps s)"
  proof
    assume "HandlerSet ?k \<in> set (steps s)"
    then obtain now' c' where e: "?k = messageId_of now' c'" and c: "c' \<le> messageIdCounter s"
      using I3 by blast
    have "messageIdCounter s + 1 = c'" using e by (rule messageId_counter)
    then show False using c by simp
  qed
  have nodel: "HandlerDelete ?k \<notin> set (steps s)" using fresh I4 by blast
  have absent: "messageHandlers s ?k = None" using fresh I1 [of ?k] by auto
  have J1: "messageHandlers ?s' j \<noteq> None \<longleftrightarrow>
            HandlerSet j \<in> set (steps ?s') \<and> HandlerDelete j \<notin> set (steps ?s')" for j
    using I1 [of j] nodel by (cases "j = ?k") (auto simp: S(2) S(7))
  have J2a: "count_list (steps ?s') (HandlerSet j) \<le> 1" for j
  proof (cases "j = ?k")
    case True
    have "count_list (steps s) (HandlerSet ?k) = 0"
      using fresh by (simp add: count_list_0_iff)
    then show ?thesis using True by (simp add: S(7))
  next
    case False
    then show ?thesis using I2(1) [of j] by (simp add: S(7))
  qed
  have J2b: "count_list (steps ?s') (HandlerDelete j) \<le> 1" for j
    using I2(2) [of j] by (simp add: S(7))
  have J3: "\<exists>now c. j = messageId_of now c \<and> c \<le> messageIdCounter ?s'"
    if "HandlerSet j \<in> set (steps ?s')" for j
  proof (cases "j = ?k")
    case True
    then have "j = messageId_of now (messageIdCounter s + 1)
        \<and> messageIdCounter s + 1 \<le> messageIdCounter ?s'"
      by (simp add: S(5))
    then show ?thesis by blast
  next
    case False
    then have "HandlerSet j \<in> set (steps s)" using that by (simp add: S(7))
    then obtain now' c' where "j = messageId_of now' c'" "c' \<le> messageIdCounter s"
      using I3 by blast
    then have "j = messageId_of now' c' \<and> c' \<le> messageIdCounter ?s'"
      by (simp add: S(5))
    then show ?thesis by blast
  qed
  have J4: "HandlerSet j \<in> set (steps ?s')" if "HandlerDelete j \<in> set (steps ?s')" for j
  proof -
    have "HandlerDelete j \<in> set (steps s)" using that by (simp add: S(7))
    then show ?thesis using I4 by (simp add: S(7))
  qed
  have J5: "\<exists>h'. messageHandlers ?s' j = Some h' \<and> h_timeout h' = t"
    if "timers ?s' t = Some (RequestTimeout j ty' p)" for t j ty' p
  proof (cases "t = next_id s + 1")
    case True
    then have "j = ?k" using that by (simp add: S(4))
    then show ?thesis using True by (simp add: S(2))
  next
    case False
    then have ts: "timers s t = Some (RequestTimeout j ty' p)"
      using that by (auto simp: S(4) split: if_splits)
    then obtain h' where h': "messageHandlers s j = Some h'" "h_timeout h' = t"
      using I5 by blast
    then have "j \<noteq> ?k" using absent by auto
    then show ?thesis using h' by (simp add: S(2))
  qed
  have J6: "h_timeout h' \<noteq> 0" if "messageHandlers ?s' j = Some h'" for j h'
  proof (cases "j = ?k")
    case True
    then show ?thesis using that by (auto simp: S(2))
  next
    case False
    then have "messageHandlers s j = Some h'" using that by (simp add: S(2))
    then show ?thesis by (rule I6)
  qed
  show ?thesis
    unfolding table_invariant_def
    using J1 J2a J2b J3 J4 J5 J6 by blast
qed

lemma inv_timer_removed:
  assumes inv: "table_invariant s"
    and "steps s' = steps s" and "messageHandlers s' = messageHandlers s"
    and "messageIdCounter s' = messageIdCounter s"
    and tm: "\<And>t'. timers s' t' = (if t' = t then None else timers s t')"
  shows "table_invariant s'"
proof -
  have "\<exists>h. messageHandlers s j = Some h \<and> h_timeout h = t'"
    if "timers s' t' = Some (RequestTimeout j ty p)" for t' j ty p
  proof -
    have "timers s t' = Some (RequestTimeout j ty p)"
      using that by (simp add: tm split: if_splits)
    then show ?thesis using inv unfolding table_invariant_def by blast
  qed
  then show ?thesis
    using inv unfolding table_invariant_def assms(2,3,4) by blast
qed

lemma inv_fire:
  assumes inv: "table_invariant s"
  shows "table_invariant (fire t s)"
proof (rule fire_cases [of t s])
  assume "steps (fire t s) = steps s" "messageHandlers (fire t s) = messageHandlers s"
    "messageIdCounter (fire t s) = messageIdCounter s"
    "\<And>t'. timers (fire t s) t' = (if t' = t then None else timers s t')"
  then show ?thesis by (rule inv_timer_removed [OF inv])
next
  fix k ty p
  assume tt: "timers s t = Some (RequestTimeout k ty p)"
    and f: "fire t s = reject p (Error (''Request timed out: '' @ ty))
                    (handlers_delete k (s\<lparr>timers := (timers s)(t := None)\<rparr>))"
  obtain h where h: "messageHandlers s k = Some h" "h_timeout h = t"
    using inv tt unfolding table_invariant_def by blast
  show ?thesis
  proof (rule inv_settle [OF inv h(1), where rest = "[Reject p]"])
    show "messageHandlers (fire t s) = (messageHandlers s)(k := None)"
      unfolding f by (simp add: api_fields)
    show "steps (fire t s) = steps s @ [HandlerDelete k, Reject p]"
      unfolding f by (simp add: api_fields)
    show "\<forall>j. HandlerSet j \<notin> set [Reject p] \<and> HandlerDelete j \<notin> set [Reject p]"
      by simp
    show "messageIdCounter (fire t s) = messageIdCounter s"
      unfolding f by (simp add: counter_fields)
    show "timers (fire t s) = (timers s)(h_timeout h := None)"
      unfolding f by (simp add: api_fields h(2))
  qed
qed

lemma inv_deliver:
  assumes inv: "table_invariant s"
  shows "table_invariant (handleMessage m s)"
proof -
  from handleMessage_cases [of m s] show ?thesis
  proof
    assume "handleMessage m s = s"
    then show ?thesis using inv by simp
  next
    assume "\<exists>k h. messageHandlers s k = Some h
          \<and> handleMessage m s =
                resolve (h_promise h) m
                  (if h_timeout h \<noteq> 0 then clearTimeout (h_timeout h) (handlers_delete k s)
                   else handlers_delete k s)"
    then obtain k h where h: "messageHandlers s k = Some h"
      and g0: "handleMessage m s =
                resolve (h_promise h) m
                  (if h_timeout h \<noteq> 0 then clearTimeout (h_timeout h) (handlers_delete k s)
                   else handlers_delete k s)"
      by blast
    have "h_timeout h \<noteq> 0"
      using inv h unfolding table_invariant_def by blast
    then have g: "handleMessage m s =
                resolve (h_promise h) m (clearTimeout (h_timeout h) (handlers_delete k s))"
      using g0 by simp
    show ?thesis
    proof (rule inv_settle [OF inv h, where rest = "[ClearTimeout (h_timeout h), Resolve (h_promise h)]"])
      show "messageHandlers (handleMessage m s) = (messageHandlers s)(k := None)"
        unfolding g by (simp add: api_fields)
      show "steps (handleMessage m s)
              = steps s @ [HandlerDelete k, ClearTimeout (h_timeout h), Resolve (h_promise h)]"
        unfolding g by (simp add: api_fields)
      show "\<forall>j. HandlerSet j \<notin> set [ClearTimeout (h_timeout h), Resolve (h_promise h)]
              \<and> HandlerDelete j \<notin> set [ClearTimeout (h_timeout h), Resolve (h_promise h)]"
        by simp
      show "messageIdCounter (handleMessage m s) = messageIdCounter s"
        unfolding g by (simp add: counter_fields)
      show "timers (handleMessage m s) = (timers s)(h_timeout h := None)"
        unfolding g by (simp add: api_fields)
    qed
  qed
qed

lemma inv_new: "table_invariant new_api"
  by (simp add: table_invariant_def new_api_def)

lemma counter_step: "messageIdCounter s \<le> messageIdCounter (step e s)"
proof (cases e)
  case (Send ty d now)
  have sp: "sendMessage ty d now s = (fst (sendMessage ty d now s), snd (sendMessage ty d now s))"
    by simp
  show ?thesis
    using sendMessage_state(5) [OF sp] increment_ge [of "messageIdCounter s"]
    by (simp add: step_def Send)
next
  case (Deliver m)
  from handleMessage_cases [of m s] have "messageIdCounter (handleMessage m s) = messageIdCounter s"
    by (auto simp: counter_fields)
  then show ?thesis by (simp add: step_def Deliver)
next
  case (Fire t)
  have "messageIdCounter (fire t s) = messageIdCounter s"
    by (rule fire_cases [of t s]) (simp_all add: counter_fields)
  then show ?thesis by (simp add: step_def Fire)
qed

lemma inv_run:
  "messageIdCounter (run es new_api) < 2 ^ 53 \<Longrightarrow> table_invariant (run es new_api)"
proof (induction es rule: rev_induct)
  case Nil
  then show ?case by (simp add: run_def inv_new)
next
  case (snoc e es)
  have r: "run (es @ [e]) new_api = step e (run es new_api)"
    by (simp add: run_def)
  have b: "messageIdCounter (run es new_api) < 2 ^ 53"
    using snoc.prems counter_step [of "run es new_api" e] by (simp add: r)
  then have inv: "table_invariant (run es new_api)" by (rule snoc.IH)
  show ?case
  proof (cases e)
    case (Send ty d now)
    have "step e (run es new_api) = snd (sendMessage ty d now (run es new_api))"
      by (simp add: step_def Send)
    then show ?thesis
      unfolding r using inv_send [OF inv b, of ty d now] by (simp only:)
  next
    case (Deliver m)
    have "step e (run es new_api) = handleMessage m (run es new_api)"
      by (simp add: step_def Deliver)
    then show ?thesis
      unfolding r using inv_deliver [OF inv, of m] by (simp only:)
  next
    case (Fire t)
    have "step e (run es new_api) = fire t (run es new_api)"
      by (simp add: step_def Fire)
    then show ?thesis
      unfolding r using inv_fire [OF inv, of t] by (simp only:)
  qed
qed

text \<open>
  In every run of the client from its initial state that leaves the counter below its
  bound \<open>2^53\<close>, whatever requests are sent, messages delivered and timers fired, and in
  whatever order: an entry is filed under a correlation id at most once (ids are not
  reused), it is deleted at most once, and the table holds an entry for an id exactly
  when one was filed and not yet deleted.
\<close>
theorem at_most_once_in_every_run:
  assumes "messageIdCounter (run es new_api) < 2 ^ 53"
  shows "count_list (steps (run es new_api)) (HandlerSet k) \<le> 1
   \<and> count_list (steps (run es new_api)) (HandlerDelete k) \<le> 1
   \<and> (messageHandlers (run es new_api) k \<noteq> None \<longleftrightarrow>
        HandlerSet k \<in> set (steps (run es new_api))
        \<and> HandlerDelete k \<notin> set (steps (run es new_api)))"
  using inv_run [OF assms] unfolding table_invariant_def by blast

end
